theory Spec2Isabelle
  imports Complex_Main "HOL-Library.Word" "HOL-Library.Monad_Syntax" "HOL-Library.Signed_Division"
    "HOL-Library.Code_Target_Numeral"
begin

section \<open>Data model\<close>

text \<open>
  The Go package \<^verbatim>\<open>merkletree\<close> (RFC 6962 Merkle hash trees) has a static part
  (\<^verbatim>\<open>MTH\<close>, \<^verbatim>\<open>Path\<close>, \<^verbatim>\<open>subProof\<close>, \<^verbatim>\<open>Proof\<close>) and an incremental tree
  (\<^verbatim>\<open>MerkleHashTree\<close> in tree.go) that stores one digest array per level.

  Conventions of the embedding:
  \<^item> a byte is an \<open>8 word\<close>; an entry (\<^verbatim>\<open>[]byte\<close>) and a digest (\<^verbatim>\<open>[sha256.Size]byte\<close>) are
    byte lists;
  \<^item> \<^verbatim>\<open>sha256.Sum256\<close> is an external collaborator: every function takes the hash function
    as its first argument \<open>H\<close>, and every general theorem holds for all \<open>H\<close>;
  \<^item> \<^verbatim>\<open>uint64\<close> values are naturals, with the wrap-around of the one multiplication that can
    overflow written out; \<^verbatim>\<open>uint64(len(D))\<close> is \<open>length D\<close>, exact because a Go slice has a
    length below \<open>2 ^ 63\<close> (the theorems carry that bound);
  \<^item> Go \<^verbatim>\<open>int\<close> values (levels, indices) are integers; they are slice lengths and indices
    and small offsets of them;
  \<^item> a run-time panic is the \<open>Inl\<close> branch of a sum; a recursion that never returns (in Go:
    a stack overflow) is the value \<open>None\<close> of a \<^theory_text>\<open>partial_function\<close>.
\<close>

type_synonym byte = "8 word"
type_synonym entry = "byte list"
type_synonym digest = "byte list"
type_synonym hash = "byte list \<Rightarrow> digest"

datatype panic = IndexOutOfRange | MakeSliceLenOutOfRange

record MerkleHashTree =
  tree :: "digest list list"

text \<open>Reading \<^verbatim>\<open>xs[i]\<close> and the assignment \<^verbatim>\<open>xs[i] = v\<close>, with Go's bounds check.\<close>

definition index :: "'a list \<Rightarrow> int \<Rightarrow> panic + 'a" where
  "index xs i = (if 0 \<le> i \<and> i < int (length xs) then Inr (xs ! nat i) else Inl IndexOutOfRange)"

definition store :: "'a list \<Rightarrow> int \<Rightarrow> 'a \<Rightarrow> panic + 'a list" where
  "store xs i v = (if 0 \<le> i \<and> i < int (length xs) then Inr (xs[nat i := v]) else Inl IndexOutOfRange)"

section \<open>Hash primitives and the decomposition rule\<close>

definition LeafPrefix :: byte where
  "LeafPrefix = 0"

definition NodePrefix :: byte where
  "NodePrefix = 1"

definition leafHash :: "hash \<Rightarrow> byte list \<Rightarrow> digest" where
  "leafHash H input = H (LeafPrefix # input)"

definition nodeHash :: "hash \<Rightarrow> byte list \<Rightarrow> digest" where
  "nodeHash H input = H (NodePrefix # input)"

text \<open>
  A stand-in for the hash function in the concrete instances below: the identity, under
  which different inputs have different digests.
\<close>

definition id_hash :: hash where
  "id_hash input = input"

text \<open>
  The loop of \<^verbatim>\<open>largestPowerOf2SmallerThan\<close>: the first argument counts the iterations that
  remain of \<^verbatim>\<open>for i := 0; i < 64; i++\<close>; \<^verbatim>\<open>cur * 2\<close> is a \<^verbatim>\<open>uint64\<close> product.
\<close>

fun largestPowerOf2SmallerThan_loop :: "nat \<Rightarrow> nat \<Rightarrow> nat \<Rightarrow> nat \<Rightarrow> nat" where
  "largestPowerOf2SmallerThan_loop 0 cur prev n = 0"
| "largestPowerOf2SmallerThan_loop (Suc r) cur prev n =
     (let cur' = (cur * 2) mod 2 ^ 64 in
      if cur' > n - 1 then prev
      else largestPowerOf2SmallerThan_loop r cur' cur' n)"

definition largestPowerOf2SmallerThan :: "nat \<Rightarrow> nat" where
  "largestPowerOf2SmallerThan n =
     (if n < 2 then 0 else largestPowerOf2SmallerThan_loop 64 1 1 n)"

text \<open>
  \<^verbatim>\<open>levels\<close> goes through floating point: \<^verbatim>\<open>int(math.Log2(float64(nodes)))\<close> and
  \<^verbatim>\<open>int(math.Pow(2, float64(l)))\<close>. Both library functions are taken as the exact real
  functions, and the conversion to \<^verbatim>\<open>int\<close> truncates. This is the code's value for every
  \<open>nodes\<close> from 1 to \<open>2 ^ 49 - 2\<close>. From \<open>2 ^ 49 - 1\<close> on the \<^verbatim>\<open>float64\<close> logarithm of a
  number just below a power of two can round up to the next integer, and the code then
  returns one more than the exact value (51 instead of 50 at \<open>2 ^ 49 - 1\<close>); the model does
  not follow the code there. A level 0 of that many digests is beyond the heap of the Go
  runtime, so no tree has such a leaf count; the statement about \<^verbatim>\<open>levels\<close> itself (C9) is
  made below \<open>2 ^ 49 - 1\<close> only. For \<open>nodes \<le> 0\<close> the logarithm is \<open>-Inf\<close> or \<open>NaN\<close>,
  whose conversion the Go specification leaves to the implementation; the value here is the
  least 64-bit integer, which amd64 gives for both and arm64 for \<open>-Inf\<close>. A negative power
  of two truncates to 0.
\<close>

definition log2_int :: "int \<Rightarrow> int" where
  "log2_int nodes = (if nodes \<le> 0 then - (2 ^ 63) else \<lfloor>log 2 (real_of_int nodes)\<rfloor>)"

definition pow2_int :: "int \<Rightarrow> int" where
  "pow2_int l = \<lfloor>2 powr (real_of_int l)\<rfloor>"

definition levels :: "int \<Rightarrow> int" where
  "levels nodes =
     (let l = log2_int nodes in
      if pow2_int l \<noteq> nodes then l + 2 else l + 1)"

section \<open>Static functions\<close>

partial_function (option) MTH :: "hash \<Rightarrow> entry list \<Rightarrow> digest option" where
  "MTH H D =
     (let n = length D in
      if n = 0 then Some (H [])
      else if n = 1 then Some (H (LeafPrefix # D ! 0))
      else
        let k = largestPowerOf2SmallerThan n in
        do {
          x \<leftarrow> MTH H (take k D);
          y \<leftarrow> MTH H (drop k D);
          Some (H (NodePrefix # x @ y))
        })"

text \<open>
  \<^verbatim>\<open>Path\<close>: the guard \<^verbatim>\<open>m < 0 || m > n\<close> is kept as written (\<open>m\<close> is unsigned, so its first
  half never holds).
\<close>

partial_function (option) Path :: "hash \<Rightarrow> nat \<Rightarrow> entry list \<Rightarrow> digest list option" where
  "Path H m D =
     (let n = length D in
      if m < 0 \<or> m > n then Some []
      else if m = 0 \<and> n = 1 then Some []
      else
        let k = largestPowerOf2SmallerThan n in
        if m < k then
          do {
            p \<leftarrow> Path H m (take k D);
            x \<leftarrow> MTH H (drop k D);
            Some (p @ [x])
          }
        else
          do {
            p \<leftarrow> Path H (m - k) (drop k D);
            x \<leftarrow> MTH H (take k D);
            Some (p @ [x])
          })"

partial_function (option) subProof :: "hash \<Rightarrow> nat \<Rightarrow> entry list \<Rightarrow> bool \<Rightarrow> digest list option" where
  "subProof H m D isKnown =
     (let n = length D in
      if m = n \<and> isKnown then Some []
      else if m = n \<and> \<not> isKnown then
        do {
          x \<leftarrow> MTH H D;
          Some [x]
        }
      else if m < n then
        let k = largestPowerOf2SmallerThan n in
        if m \<le> k then
          do {
            p \<leftarrow> subProof H m (take k D) isKnown;
            x \<leftarrow> MTH H (drop k D);
            Some (p @ [x])
          }
        else
          do {
            p \<leftarrow> subProof H (m - k) (drop k D) False;
            x \<leftarrow> MTH H (take k D);
            Some (p @ [x])
          }
      else Some [])"

definition Proof :: "hash \<Rightarrow> nat \<Rightarrow> entry list \<Rightarrow> digest list option" where
  "Proof H m D =
     (let n = length D in
      if m < 0 \<or> m > n then Some []
      else subProof H m D True)"

section \<open>The incremental tree\<close>

text \<open>
  \<^verbatim>\<open>buildTree\<close> and \<^verbatim>\<open>rebuildTree\<close> mutate the receiver: the tree is passed in and returned
  with the digest. \<^verbatim>\<open>entries\<close> is a slice of level 0, which neither function writes at the
  levels they are called with from \<^verbatim>\<open>New\<close> and \<^verbatim>\<open>Append\<close> (level 1 and above), so it is
  passed by value.
\<close>

partial_function (option) buildTree ::
  "hash \<Rightarrow> MerkleHashTree \<Rightarrow> digest list \<Rightarrow> int \<Rightarrow> (panic + digest \<times> MerkleHashTree) option" where
  "buildTree H m entries level =
     (let n = length entries in
      if n = 0 then Some (Inr (H [], m))
      else if n = 1 then Some (Inr (entries ! 0, m))
      else
        let k = largestPowerOf2SmallerThan n in
        do {
          r1 \<leftarrow> buildTree H m (take k entries) (level - 1);
          case r1 of
            Inl e \<Rightarrow> Some (Inl e)
          | Inr (left, m1) \<Rightarrow>
              do {
                r2 \<leftarrow> buildTree H m1 (drop k entries) (level - 1);
                case r2 of
                  Inl e \<Rightarrow> Some (Inl e)
                | Inr (right, m2) \<Rightarrow>
                    let final = left @ right;
                        hash = nodeHash H final
                    in (case index (tree m2) level of
                          Inl e \<Rightarrow> Some (Inl e)
                        | Inr row \<Rightarrow>
                            Some (Inr (hash, m2\<lparr>tree := (tree m2)[nat level := row @ [hash]]\<rparr>)))
              }
        })"

text \<open>
  \<^verbatim>\<open>rebuildTree\<close> also threads \<^verbatim>\<open>levelIndexMap\<close>, a Go map (a reference);
  \<^verbatim>\<open>index, _ := levelIndexMap[level]\<close> reads a missing key as 0.
\<close>

definition read_index :: "(int \<rightharpoonup> int) \<Rightarrow> int \<Rightarrow> int" where
  "read_index levelIndexMap level = (case levelIndexMap level of None \<Rightarrow> 0 | Some i \<Rightarrow> i)"

partial_function (option) rebuildTree ::
  "hash \<Rightarrow> MerkleHashTree \<Rightarrow> digest list \<Rightarrow> int \<Rightarrow> (int \<rightharpoonup> int) \<Rightarrow>
     (panic + digest \<times> MerkleHashTree \<times> (int \<rightharpoonup> int)) option" where
  "rebuildTree H m entries level levelIndexMap =
     (let n = length entries in
      if n = 0 then Some (Inr (H [], m, levelIndexMap))
      else if n = 1 then Some (Inr (entries ! 0, m, levelIndexMap))
      else
        let k = largestPowerOf2SmallerThan n in
        do {
          r1 \<leftarrow> rebuildTree H m (take k entries) (level - 1) levelIndexMap;
          case r1 of
            Inl e \<Rightarrow> Some (Inl e)
          | Inr (left, m1, lim1) \<Rightarrow>
              do {
                r2 \<leftarrow> rebuildTree H m1 (drop k entries) (level - 1) lim1;
                case r2 of
                  Inl e \<Rightarrow> Some (Inl e)
                | Inr (right, m2, lim2) \<Rightarrow>
                    let final = left @ right;
                        hash = nodeHash H final;
                        idx = read_index lim2 level
                    in (case index (tree m2) level of
                          Inl e \<Rightarrow> Some (Inl e)
                        | Inr row \<Rightarrow>
                            if idx = int (length row) then
                              Some (Inr (hash, m2\<lparr>tree := (tree m2)[nat level := row @ [hash]]\<rparr>,
                                         lim2(level \<mapsto> idx + 1)))
                            else
                              (case store row idx hash of
                                 Inl e \<Rightarrow> Some (Inl e)
                               | Inr row' \<Rightarrow>
                                   Some (Inr (hash, m2\<lparr>tree := (tree m2)[nat level := row']\<rparr>,
                                              lim2(level \<mapsto> idx + 1)))))
              }
        })"

text \<open>
  \<^verbatim>\<open>New\<close>: \<^verbatim>\<open>make([][][sha256.Size]byte, l)\<close> panics on a negative length; \<^verbatim>\<open>t[0] = leaves\<close>
  is a checked store.
\<close>

definition New :: "hash \<Rightarrow> entry list \<Rightarrow> (panic + MerkleHashTree) option" where
  "New H d =
     (let leaves = map (leafHash H) d;
          l = levels (int (length d))
      in if l < 0 then Some (Inl MakeSliceLenOutOfRange)
         else
           (case store (replicate (nat l) []) 0 leaves of
              Inl e \<Rightarrow> Some (Inl e)
            | Inr t \<Rightarrow>
                do {
                  r \<leftarrow> buildTree H \<lparr>tree = t\<rparr> (t ! 0) (l - 1);
                  case r of
                    Inl e \<Rightarrow> Some (Inl e)
                  | Inr (hash, m) \<Rightarrow> Some (Inr m)
                }))"

text \<open>The first loop of \<^verbatim>\<open>Append\<close>: one checked read and store of \<^verbatim>\<open>m.tree[0]\<close> per entry.\<close>

fun Append_leaves :: "hash \<Rightarrow> digest list list \<Rightarrow> entry list \<Rightarrow> panic + digest list list" where
  "Append_leaves H t [] = Inr t"
| "Append_leaves H t (e # d) =
     (case index t 0 of
        Inl p \<Rightarrow> Inl p
      | Inr row \<Rightarrow> Append_leaves H (t[0 := row @ [leafHash H e]]) d)"

definition Append :: "hash \<Rightarrow> MerkleHashTree \<Rightarrow> entry list \<Rightarrow> (panic + digest \<times> MerkleHashTree) option" where
  "Append H m d =
     (case Append_leaves H (tree m) d of
        Inl p \<Rightarrow> Some (Inl p)
      | Inr t1 \<Rightarrow>
          (case index t1 0 of
             Inl p \<Rightarrow> Some (Inl p)
           | Inr row \<Rightarrow>
               let l = levels (int (length row));
                   start = int (length t1);
                   t2 = t1 @ replicate (nat (l - start)) []
               in do {
                    r \<leftarrow> rebuildTree H \<lparr>tree = t2\<rparr> row (l - 1) Map.empty;
                    case r of
                      Inl p \<Rightarrow> Some (Inl p)
                    | Inr (hash, m', levelIndexMap) \<Rightarrow> Some (Inr (hash, m'))
                  }))"

text \<open>A caller that issues one \<^verbatim>\<open>Append\<close> call per batch of entries, in order.\<close>

fun Appends :: "hash \<Rightarrow> MerkleHashTree \<Rightarrow> entry list list \<Rightarrow> (panic + MerkleHashTree) option" where
  "Appends H m [] = Some (Inr m)"
| "Appends H m (d # ds) =
     do {
       r \<leftarrow> Append H m d;
       case r of
         Inl p \<Rightarrow> Some (Inl p)
       | Inr (hash, m') \<Rightarrow> Appends H m' ds
     }"

definition MerkleRoot :: "MerkleHashTree \<Rightarrow> panic + digest" where
  "MerkleRoot m =
     (case index (tree m) (int (length (tree m)) - 1) of
        Inl p \<Rightarrow> Inl p
      | Inr row \<Rightarrow> index row 0)"

text \<open>
  \<^verbatim>\<open>mthOfRange\<close>: \<^verbatim>\<open>start/maxSize\<close> is Go's integer division, which truncates towards zero
  (\<open>sdiv\<close>). \<^verbatim>\<open>maxSize\<close> is 0 only where \<^verbatim>\<open>levels-1\<close> is negative, and there the read of
  \<^verbatim>\<open>mth.tree[levels-1]\<close> panics. \<open>end\<close> is written \<open>end'\<close>.
\<close>

definition mthOfRange :: "MerkleHashTree \<Rightarrow> int \<Rightarrow> int \<Rightarrow> panic + digest" where
  "mthOfRange mth start end' =
     (if start = end' then
        (case index (tree mth) 0 of
           Inl p \<Rightarrow> Inl p
         | Inr row \<Rightarrow> index row start)
      else
        let lv = levels (end' - start + 1);
            maxSize = pow2_int (lv - 1)
        in (case index (tree mth) (lv - 1) of
              Inl p \<Rightarrow> Inl p
            | Inr row \<Rightarrow> index row (start sdiv maxSize)))"

partial_function (option) AduitPath ::
  "MerkleHashTree \<Rightarrow> int \<Rightarrow> int \<Rightarrow> int \<Rightarrow> (panic + digest list) option" where
  "AduitPath mth m start end' =
     (let n = end' - start + 1 in
      if n = 0 \<or> start > end' then Some (Inr [])
      else if m < start \<or> m > end' then Some (Inr [])
      else if m = start \<and> n = 1 then Some (Inr [])
      else
        let k = start + int (largestPowerOf2SmallerThan (nat (n mod 2 ^ 64))) in
        if m < k then
          do {
            r \<leftarrow> AduitPath mth m start (k - 1);
            case r of
              Inl e \<Rightarrow> Some (Inl e)
            | Inr p \<Rightarrow>
                (case mthOfRange mth k end' of
                   Inl e \<Rightarrow> Some (Inl e)
                 | Inr x \<Rightarrow> Some (Inr (p @ [x])))
          }
        else
          do {
            r \<leftarrow> AduitPath mth m k end';
            case r of
              Inl e \<Rightarrow> Some (Inl e)
            | Inr p \<Rightarrow>
                (case mthOfRange mth start (k - 1) of
                   Inl e \<Rightarrow> Some (Inl e)
                 | Inr x \<Rightarrow> Some (Inr (p @ [x])))
          })"

fun IndexOf_from :: "int \<Rightarrow> digest list \<Rightarrow> digest \<Rightarrow> int" where
  "IndexOf_from i [] e = - 1"
| "IndexOf_from i (b # bs) e = (if b = e then i else IndexOf_from (i + 1) bs e)"

definition IndexOf :: "digest list \<Rightarrow> digest \<Rightarrow> int" where
  "IndexOf entries e = IndexOf_from 0 entries e"

definition InclusionProof :: "hash \<Rightarrow> MerkleHashTree \<Rightarrow> entry \<Rightarrow> (panic + digest list) option" where
  "InclusionProof H mth e =
     (let hash = leafHash H e in
      case index (tree mth) 0 of
        Inl p \<Rightarrow> Some (Inl p)
      | Inr row \<Rightarrow>
          let m = IndexOf row hash in
          if m < 0 then Some (Inr [])
          else AduitPath mth m 0 (int (length row) - 1))"

text \<open>The recursion equations are the code equations of the partial functions.\<close>

declare MTH.simps [code] Path.simps [code] subProof.simps [code]
  buildTree.simps [code] rebuildTree.simps [code] AduitPath.simps [code]

section \<open>Verification folds\<close>

text \<open>
  Modelled from the spec: the repository has no verifier (its README lists the
  verification functions as future work), so the fold that the specification describes
  for an audit path (section 4.4) is written here from its words. The proof lists the
  siblings from the leaf to the root; the fold recomputes the split point \<open>k\<close> of every
  level from \<open>m\<close> and \<open>n\<close> alone, the last digest of the proof being the sibling at the
  top split. \<open>fold_path_rev\<close> walks the reversed proof.
\<close>

fun fold_path_rev :: "hash \<Rightarrow> nat \<Rightarrow> nat \<Rightarrow> digest \<Rightarrow> digest list \<Rightarrow> digest" where
  "fold_path_rev H m n h [] = h"
| "fold_path_rev H m n h (s # ss) =
     (let k = largestPowerOf2SmallerThan n in
      if m < k then nodeHash H (fold_path_rev H m k h ss @ s)
      else nodeHash H (s @ fold_path_rev H (m - k) (n - k) h ss))"

definition fold_path :: "hash \<Rightarrow> nat \<Rightarrow> nat \<Rightarrow> digest \<Rightarrow> digest list \<Rightarrow> digest" where
  "fold_path H m n h p = fold_path_rev H m n h (rev p)"



section \<open>Invariants used in the proofs\<close>

text \<open>
  \<open>index_inv\<close>: during \<^verbatim>\<open>rebuildTree\<close> every level's write index is within the level array
  or at its end. \<open>put_digest\<close>: the write of one digest at that index. \<open>tree_inv\<close>: the
  shape of a tree that \<^verbatim>\<open>New\<close> and \<^verbatim>\<open>Append\<close> produce from the entries \<open>D\<close>.
\<close>

definition index_inv :: "MerkleHashTree \<Rightarrow> (int \<rightharpoonup> int) \<Rightarrow> bool" where
  "index_inv m ixm \<longleftrightarrow>
     (\<forall>j. 0 \<le> read_index ixm j) \<and>
     (\<forall>j < length (tree m). read_index ixm (int j) \<le> int (length (tree m ! j)))"

definition put_digest :: "digest list \<Rightarrow> int \<Rightarrow> digest \<Rightarrow> digest list" where
  "put_digest row i h = (if i = int (length row) then row @ [h] else row[nat i := h])"

definition tree_inv :: "hash \<Rightarrow> MerkleHashTree \<Rightarrow> entry list \<Rightarrow> bool" where
  "tree_inv H m D \<longleftrightarrow>
     D \<noteq> [] \<and> tree m \<noteq> [] \<and> tree m ! 0 = map (leafHash H) D \<and>
     int (length (tree m)) = levels (int (length D)) \<and>
     tree m ! (length (tree m) - 1) = [the (MTH H D)]"

section \<open>The decomposition rule on slice lengths\<close>

text \<open>
  For a length \<open>n\<close> with \<open>2 \<le> n \<le> 2 ^ 63\<close> the loop stops at the largest power of two
  below \<open>n\<close>: \<open>k < n \<le> 2 * k\<close>.
\<close>

lemma largestPowerOf2SmallerThan_loop_spec:
  assumes "j + r = 64" "2 ^ j < n" "n \<le> 2 ^ 63"
  shows "\<exists>i. largestPowerOf2SmallerThan_loop r (2 ^ j) (2 ^ j) n = 2 ^ i \<and> 2 ^ i < n \<and> n \<le> 2 ^ (i + 1)"
  using assms
proof (induction r arbitrary: j)
  case 0
  then have "(2::nat) ^ 64 < 2 ^ 63" by simp
  then show ?case by simp
next
  case (Suc r)
  have "(2::nat) ^ j < 2 ^ 63" using Suc.prems by linarith
  then have j: "j < 63" using power_less_imp_less_exp[of "2::nat" j 63] by simp
  then have "(2::nat) ^ (j + 1) < 2 ^ 64" by (intro power_strict_increasing) simp_all
  then have m: "((2::nat) ^ j * 2) mod 2 ^ 64 = 2 ^ (j + 1)" by simp
  show ?case
  proof (cases "2 ^ (j + 1) > n - 1")
    case True
    then have "n \<le> 2 ^ (j + 1)" by linarith
    with True Suc.prems m show ?thesis
      by (intro exI[of _ j]) (simp del: power_Suc add: Let_def)
  next
    case False
    then have "2 ^ (j + 1) < n" using Suc.prems by simp
    moreover have "(j + 1) + r = 64" using Suc.prems by simp
    ultimately obtain i where
      "largestPowerOf2SmallerThan_loop r (2 ^ (j + 1)) (2 ^ (j + 1)) n = 2 ^ i \<and> 2 ^ i < n \<and> n \<le> 2 ^ (i + 1)"
      using Suc.IH[of "j + 1"] Suc.prems by blast
    with False m show ?thesis
      by (intro exI[of _ i]) (simp del: power_Suc add: Let_def)
  qed
qed

lemma largestPowerOf2SmallerThan_spec:
  assumes "2 \<le> n" "n \<le> 2 ^ 63"
  shows "\<exists>i. largestPowerOf2SmallerThan n = 2 ^ i \<and> 2 ^ i < n \<and> n \<le> 2 ^ (i + 1)"
  using largestPowerOf2SmallerThan_loop_spec[of 0 64 n] assms by (simp add: largestPowerOf2SmallerThan_def)

lemma largestPowerOf2SmallerThan_bounds:
  assumes "2 \<le> n" "n \<le> 2 ^ 63"
  shows "0 < largestPowerOf2SmallerThan n" "largestPowerOf2SmallerThan n < n"
    "n \<le> 2 * largestPowerOf2SmallerThan n"
  using largestPowerOf2SmallerThan_spec[OF assms] by auto

lemma largestPowerOf2SmallerThan_loop_numeral:
  "largestPowerOf2SmallerThan_loop (numeral v) cur prev n =
     (let cur' = (cur * 2) mod 2 ^ 64 in
      if cur' > n - 1 then prev
      else largestPowerOf2SmallerThan_loop (pred_numeral v) cur' cur' n)"
  by (simp only: numeral_eq_Suc[of v] largestPowerOf2SmallerThan_loop.simps)

lemma largestPowerOf2SmallerThan_small [simp]: "n < 2 \<Longrightarrow> largestPowerOf2SmallerThan n = 0"
  by (simp add: largestPowerOf2SmallerThan_def)

section \<open>The level count\<close>

lemma log2_int_between:
  assumes "2 ^ j \<le> n" "n < 2 ^ (j + 1)"
  shows "log2_int n = int j"
proof -
  have "(0::int) < 2 ^ j" by simp
  then have pos: "0 < n" using assms(1) by linarith
  have "\<lfloor>log (real 2) (real (nat n))\<rfloor> = int j"
    using assms pos floor_log_nat_eq_powr_iff[of 2 "nat n" j]
    by (simp add: nat_less_iff le_nat_iff nat_power_eq)
  then show ?thesis using pos by (simp add: log2_int_def)
qed

lemma pow2_int_nat: "pow2_int (int j) = 2 ^ j"
  by (simp add: pow2_int_def powr_realpow)

lemma pow2_int_neg: "l < 0 \<Longrightarrow> pow2_int l = 0"
proof -
  assume "l < 0"
  then have "(2::real) powr (real_of_int l) < 1" by (intro powr_less_one) simp_all
  moreover have "0 \<le> (2::real) powr (real_of_int l)" by simp
  ultimately have "\<lfloor>(2::real) powr (real_of_int l)\<rfloor> = 0" by (simp add: floor_eq_iff)
  then show ?thesis by (simp add: pow2_int_def)
qed

text \<open>Code equations for the two conversions.\<close>

lemma pow2_int_code [code]: "pow2_int l = (if l < 0 then 0 else 2 ^ nat l)"
proof (cases "l < 0")
  case True
  then show ?thesis by (simp add: pow2_int_neg)
next
  case False
  then show ?thesis using pow2_int_nat[of "nat l"] by simp
qed

lemma log2_int_code [code]:
  "log2_int nodes =
     (if nodes \<le> 0 then - (2 ^ 63) else if nodes < 2 then 0 else log2_int (nodes div 2) + 1)"
proof (cases "2 \<le> nodes")
  case True
  have "\<lfloor>log 2 (real (nat nodes))\<rfloor> = \<lfloor>log 2 (real (nat nodes div 2))\<rfloor> + 1"
    using True by (intro floor_log2_div2) simp
  moreover have "int (nat nodes div 2) = nodes div 2"
    using True by (simp add: zdiv_int)
  then have "real (nat nodes div 2) = real_of_int (nodes div 2)"
    by (metis of_int_of_nat_eq)
  moreover have "0 < nodes div 2" using True by simp
  ultimately show ?thesis using True by (simp add: log2_int_def)
next
  case False
  then show ?thesis using log2_int_between[of 0 nodes] by (auto simp: log2_int_def)
qed

lemma levels_pow2: "levels (2 ^ j) = int j + 1"
  using log2_int_between[of j "2 ^ j"] by (simp add: levels_def pow2_int_nat)

lemma levels_between:
  assumes "2 ^ j < n" "n < 2 ^ (j + 1)"
  shows "levels n = int j + 2"
  using log2_int_between[of j n] assms by (simp add: levels_def pow2_int_nat)

lemma levels_0: "levels 0 = - (2 ^ 63) + 1"
  by (simp add: levels_def log2_int_def pow2_int_neg)

lemma levels_ceil:
  assumes "1 \<le> n"
  shows "\<exists>L. levels (int n) = int L + 1 \<and> n \<le> 2 ^ L \<and> (0 < L \<longrightarrow> 2 ^ (L - 1) < n)"
proof -
  obtain j where j: "2 ^ j \<le> n" "n < 2 ^ (j + 1)"
    using ex_power_ivl1[of 2 n] assms by auto
  show ?thesis
  proof (cases "n = 2 ^ j")
    case True
    then have "int n = 2 ^ j" by simp
    moreover have "0 < j \<Longrightarrow> (2::nat) ^ (j - 1) < 2 ^ j" by (intro power_strict_increasing) simp_all
    ultimately show ?thesis using levels_pow2[of j] True by (intro exI[of _ j]) simp
  next
    case False
    then have lt: "2 ^ j < n" using j(1) by simp
    then have "int (2 ^ j) < int n" "int n < int (2 ^ (j + 1))"
      using j(2) by (simp_all only: of_nat_less_iff)
    then have "2 ^ j < int n" "int n < 2 ^ (j + 1)" by simp_all
    then have "levels (int n) = int j + 2" by (rule levels_between)
    then show ?thesis using j(2) lt by (intro exI[of _ "j + 1"]) simp
  qed
qed

lemma levels_mono:
  assumes "1 \<le> a" "a \<le> b"
  shows "levels (int a) \<le> levels (int b)"
proof -
  obtain La where La: "levels (int a) = int La + 1" "0 < La \<longrightarrow> 2 ^ (La - 1) < a"
    using levels_ceil[OF assms(1)] by blast
  obtain Lb where Lb: "levels (int b) = int Lb + 1" "b \<le> 2 ^ Lb"
    using levels_ceil[of b] assms by auto
  have "La \<le> Lb"
  proof (rule ccontr)
    assume "\<not> La \<le> Lb"
    then have g: "Lb < La" by simp
    then have "2 ^ (La - 1) < a" using La(2) by simp
    then have "(2::nat) ^ (La - 1) < 2 ^ Lb" using Lb(2) assms(2) by linarith
    then have "La - 1 < Lb" using power_less_imp_less_exp[of "2::nat" "La - 1" Lb] by simp
    then show False using g by simp
  qed
  then show ?thesis using La(1) Lb(1) by simp
qed

section \<open>The static functions return on slices\<close>

lemma MTH_Nil: "MTH H [] = Some (H [])"
  by (subst MTH.simps) simp

lemma MTH_single: "MTH H [d] = Some (leafHash H d)"
  by (subst MTH.simps) (simp add: leafHash_def)

lemma MTH_step:
  "2 \<le> length D \<Longrightarrow>
   MTH H D =
     do {
       x \<leftarrow> MTH H (take (largestPowerOf2SmallerThan (length D)) D);
       y \<leftarrow> MTH H (drop (largestPowerOf2SmallerThan (length D)) D);
       Some (nodeHash H (x @ y))
     }"
  by (subst MTH.simps) (auto simp add: nodeHash_def Let_def)

lemma MTH_total: "length D \<le> 2 ^ 63 \<Longrightarrow> \<exists>h. MTH H D = Some h"
proof (induction "length D" arbitrary: D rule: less_induct)
  case less
  consider "D = []" | d where "D = [d]" | "2 \<le> length D"
    by (cases D rule: list.exhaust; cases "tl D") auto
  then show ?case
  proof cases
    case 1
    then show ?thesis by (simp add: MTH_Nil)
  next
    case 2
    then show ?thesis by (simp add: MTH_single)
  next
    case 3
    define k where "k = largestPowerOf2SmallerThan (length D)"
    have k: "0 < k" "k < length D"
      using largestPowerOf2SmallerThan_bounds[OF 3 less.prems] by (simp_all add: k_def)
    have "length (take k D) < length D" "length (drop k D) < length D"
      using k by simp_all
    then obtain a b where a: "MTH H (take k D) = Some a" and b: "MTH H (drop k D) = Some b"
      using less.hyps[of "take k D"] less.hyps[of "drop k D"] less.prems by fastforce
    show ?thesis using a b 3 by (simp add: MTH_step k_def[symmetric])
  qed
qed

lemma Path_diverges_aux:
  assumes "Path H m D = Some p"
  shows "\<not> (m = length D \<and> D \<noteq> [] \<and> length D \<le> 2 ^ 63)"
proof (rule Path.raw_induct[where P = "\<lambda>H m D p. \<not> (m = length D \<and> D \<noteq> [] \<and> length D \<le> 2 ^ 63)", OF _ assms], goal_cases)
  case (1 Path' H m D p)
  show ?case
  proof
    assume a: "m = length D \<and> D \<noteq> [] \<and> length D \<le> 2 ^ 63"
    define k where "k = largestPowerOf2SmallerThan (length D)"
    have k: "k < length D"
    proof (cases "length D < 2")
      case True
      then show ?thesis using a by (simp add: k_def)
    next
      case False
      then show ?thesis using largestPowerOf2SmallerThan_bounds(2)[of "length D"] a by (simp add: k_def)
    qed
    from a have "\<not> (m = 0 \<and> length D = 1)" by auto
    with 1(2) a k obtain p' where "Path' H (m - k) (drop k D) = Some p'"
      by (auto simp: Let_def k_def[symmetric] split: if_splits Option.bind_splits)
    then have "\<not> (m - k = length (drop k D) \<and> drop k D \<noteq> [] \<and> length (drop k D) \<le> 2 ^ 63)"
      using 1(1)[of H "m - k" "drop k D" p'] by simp
    with a k show False by auto
  qed
qed

lemma Path_diverges:
  "D \<noteq> [] \<Longrightarrow> length D \<le> 2 ^ 63 \<Longrightarrow> Path H (length D) D = None"
  using Path_diverges_aux[of H "length D" D] by (cases "Path H (length D) D") auto

lemma Path_beyond: "length D < m \<Longrightarrow> Path H m D = Some []"
  by (subst Path.simps) simp

section \<open>The incremental tree: construction\<close>

lemma MTH_the: "length D \<le> 2 ^ 63 \<Longrightarrow> MTH H D = Some (the (MTH H D))"
  using MTH_total[of D H] by auto

lemma take_drop_bound:
  "length D \<le> N \<Longrightarrow> length (take k D) \<le> N" "length D \<le> N \<Longrightarrow> length (drop k D) \<le> N"
  by simp_all

lemma MTH_split:
  assumes "2 \<le> length D" "length D \<le> 2 ^ 63" "k = largestPowerOf2SmallerThan (length D)"
  shows "the (MTH H D) = nodeHash H (the (MTH H (take k D)) @ the (MTH H (drop k D)))"
proof -
  obtain a b where "MTH H (take k D) = Some a" "MTH H (drop k D) = Some b"
    using MTH_total[OF take_drop_bound(1)[OF assms(2), of k], of H]
      MTH_total[OF take_drop_bound(2)[OF assms(2), of k], of H] by auto
  then show ?thesis using assms by (simp add: MTH_step)
qed

lemma split_fits:
  assumes "2 \<le> n" "n \<le> 2 ^ 63" "n \<le> 2 ^ L"
  shows "0 < L" "largestPowerOf2SmallerThan n \<le> 2 ^ (L - 1)"
    "n - largestPowerOf2SmallerThan n \<le> 2 ^ (L - 1)"
proof -
  obtain i where i: "largestPowerOf2SmallerThan n = 2 ^ i" "2 ^ i < n" "n \<le> 2 ^ (i + 1)"
    using largestPowerOf2SmallerThan_spec[OF assms(1,2)] by blast
  have "(2::nat) ^ i < 2 ^ L" using i(2) assms(3) by linarith
  then have iL: "i < L" using power_less_imp_less_exp[of "2::nat" i L] by simp
  then show "0 < L" by simp
  have le: "(2::nat) ^ i \<le> 2 ^ (L - 1)" using iL by (intro power_increasing) simp_all
  then show "largestPowerOf2SmallerThan n \<le> 2 ^ (L - 1)" using i(1) by simp
  have "n - 2 ^ i \<le> 2 ^ i" using i(3) by simp
  then have "n - 2 ^ i \<le> 2 ^ (L - 1)" using le by (rule order_trans)
  then show "n - largestPowerOf2SmallerThan n \<le> 2 ^ (L - 1)" using i(1) by simp
qed

lemma buildTree_Nil: "buildTree H m [] level = Some (Inr (H [], m))"
  by (subst buildTree.simps) simp

lemma buildTree_single: "buildTree H m [e] level = Some (Inr (e, m))"
  by (subst buildTree.simps) simp

lemma buildTree_step:
  "2 \<le> length entries \<Longrightarrow>
   buildTree H m entries level =
     do {
       r1 \<leftarrow> buildTree H m (take (largestPowerOf2SmallerThan (length entries)) entries) (level - 1);
       case r1 of
         Inl e \<Rightarrow> Some (Inl e)
       | Inr (left, m1) \<Rightarrow>
           do {
             r2 \<leftarrow> buildTree H m1 (drop (largestPowerOf2SmallerThan (length entries)) entries) (level - 1);
             case r2 of
               Inl e \<Rightarrow> Some (Inl e)
             | Inr (right, m2) \<Rightarrow>
                 (case index (tree m2) level of
                    Inl e \<Rightarrow> Some (Inl e)
                  | Inr row \<Rightarrow>
                      Some (Inr (nodeHash H (left @ right),
                                 m2\<lparr>tree := (tree m2)[nat level := row @ [nodeHash H (left @ right)]]\<rparr>)))
           }
     }"
  by (subst buildTree.simps) (auto simp add: Let_def)

lemma list_cases3:
  obtains "D = []" | d where "D = [d]" | "2 \<le> length D"
  by (cases D rule: list.exhaust; cases "tl D") auto

lemma buildTree_correct:
  assumes "length D \<le> 2 ^ 63" "length D \<le> 2 ^ L" "L < length (tree m)"
  shows "\<exists>m'. buildTree H m (map (leafHash H) D) (int L) = Some (Inr (the (MTH H D), m'))
      \<and> length (tree m') = length (tree m)
      \<and> (\<forall>j. L < j \<or> j = 0 \<longrightarrow> tree m' ! j = tree m ! j)
      \<and> (2 \<le> length D \<longrightarrow> tree m' ! L = tree m ! L @ [the (MTH H D)])
      \<and> (length D < 2 \<longrightarrow> m' = m)"
  using assms
proof (induction "length D" arbitrary: D L m rule: less_induct)
  case less
  show ?case
  proof (cases D rule: list_cases3)
    case 1
    then show ?thesis by (simp add: buildTree_Nil MTH_Nil)
  next
    case (2 d)
    then show ?thesis by (simp add: buildTree_single MTH_single)
  next
    case 3
    define k where "k = largestPowerOf2SmallerThan (length D)"
    have k: "0 < k" "k < length D"
      using largestPowerOf2SmallerThan_bounds[OF 3 less.prems(1)] by (simp_all add: k_def)
    have fits: "0 < L" "k \<le> 2 ^ (L - 1)" "length D - k \<le> 2 ^ (L - 1)"
      using split_fits[OF 3 less.prems(1,2)] by (simp_all add: k_def)
    have lv: "int L - 1 = int (L - 1)" using fits(1) by simp
    define a where "a = the (MTH H (take k D))"
    define b where "b = the (MTH H (drop k D))"
    have "length (take k D) < length D" "length (take k D) \<le> 2 ^ 63"
      "length (take k D) \<le> 2 ^ (L - 1)" "L - 1 < length (tree m)"
      using k fits less.prems by simp_all
    from less.hyps[OF this] obtain m1 where m1:
      "buildTree H m (map (leafHash H) (take k D)) (int (L - 1)) = Some (Inr (a, m1))"
      "length (tree m1) = length (tree m)"
      "\<forall>j. L - 1 < j \<or> j = 0 \<longrightarrow> tree m1 ! j = tree m ! j"
      unfolding a_def by blast
    have "length (drop k D) < length D" "length (drop k D) \<le> 2 ^ 63"
      "length (drop k D) \<le> 2 ^ (L - 1)" "L - 1 < length (tree m1)"
      using k fits less.prems m1(2) by simp_all
    from less.hyps[OF this] obtain m2 where m2:
      "buildTree H m1 (map (leafHash H) (drop k D)) (int (L - 1)) = Some (Inr (b, m2))"
      "length (tree m2) = length (tree m1)"
      "\<forall>j. L - 1 < j \<or> j = 0 \<longrightarrow> tree m2 ! j = tree m1 ! j"
      unfolding b_def by blast
    have root: "the (MTH H D) = nodeHash H (a @ b)"
      unfolding a_def b_def using MTH_split[OF 3 less.prems(1) k_def] .
    have idx: "index (tree m2) (int L) = Inr (tree m ! L)"
      using m1 m2 less.prems(3) fits(1) by (simp add: index_def)
    define m' where "m' = m2\<lparr>tree := (tree m2)[L := tree m ! L @ [nodeHash H (a @ b)]]\<rparr>"
    have run: "buildTree H m (map (leafHash H) D) (int L) = Some (Inr (nodeHash H (a @ b), m'))"
      using 3 m1(1) m2(1) idx
      by (simp add: buildTree_step k_def[symmetric] take_map drop_map lv m'_def)
    have "length (tree m') = length (tree m)" using m1(2) m2(2) by (simp add: m'_def)
    moreover have "\<forall>j. L < j \<or> j = 0 \<longrightarrow> tree m' ! j = tree m ! j"
      using m1(3) m2(3) fits(1) by (auto simp: m'_def)
    moreover have "tree m' ! L = tree m ! L @ [nodeHash H (a @ b)]"
      using m1(2) m2(2) less.prems(3) by (simp add: m'_def)
    ultimately show ?thesis using run root 3 by auto
  qed
qed

lemma New_correct:
  assumes "D \<noteq> []" "length D \<le> 2 ^ 63"
  shows "\<exists>m. New H D = Some (Inr m)
      \<and> int (length (tree m)) = levels (int (length D))
      \<and> tree m ! 0 = map (leafHash H) D
      \<and> tree m ! (length (tree m) - 1) = [the (MTH H D)]"
proof -
  have n: "1 \<le> length D" using assms(1) by (cases D) simp_all
  obtain L where L: "levels (int (length D)) = int L + 1" "length D \<le> 2 ^ L"
    using levels_ceil[OF n] by blast
  define t where "t = (replicate (L + 1) ([]::digest list))[0 := map (leafHash H) D]"
  have st: "store (replicate (nat (int L + 1)) []) 0 (map (leafHash H) D) = Inr t"
    by (simp add: store_def t_def nat_add_distrib)
  have t0: "t ! 0 = map (leafHash H) D" by (simp add: t_def)
  have lt: "length t = L + 1" by (simp add: t_def)
  obtain m' where m': "buildTree H \<lparr>tree = t\<rparr> (map (leafHash H) D) (int L) = Some (Inr (the (MTH H D), m'))"
    "length (tree m') = length t"
    "\<forall>j. L < j \<or> j = 0 \<longrightarrow> tree m' ! j = t ! j"
    "2 \<le> length D \<longrightarrow> tree m' ! L = t ! L @ [the (MTH H D)]"
    "length D < 2 \<longrightarrow> m' = \<lparr>tree = t\<rparr>"
    using buildTree_correct[OF assms(2) L(2), of "\<lparr>tree = t\<rparr>" H] lt by auto
  have new: "New H D = Some (Inr m')"
    using L(1) st t0 m'(1) by (simp add: New_def Let_def)
  have top: "tree m' ! L = [the (MTH H D)]"
  proof (cases "2 \<le> length D")
    case True
    then have "0 < L" using split_fits(1)[OF True assms(2) L(2)] by simp
    then have "t ! L = []" by (simp add: t_def)
    then show ?thesis using True m'(4) by simp
  next
    case False
    then obtain d where d: "D = [d]" using n by (cases D rule: list_cases3) auto
    have "m' = \<lparr>tree = t\<rparr>" using False m'(5) by simp
    moreover have "levels 1 = 1" using levels_pow2[of 0] by simp
    then have "L = 0" using L(1) d by simp
    ultimately show ?thesis using d by (simp add: t_def MTH_single)
  qed
  show ?thesis using new m'(2) m'(3) top lt L(1) t0 by (intro exI[of _ m']) simp
qed

lemma MerkleRoot_top:
  assumes "tree m \<noteq> []" "tree m ! (length (tree m) - 1) = [h]"
  shows "MerkleRoot m = Inr h"
  using assms by (cases "tree m") (simp_all add: MerkleRoot_def index_def)

lemma New_Nil: "New H [] = Some (Inl MakeSliceLenOutOfRange)"
  by (simp add: New_def levels_0)

section \<open>The incremental tree: append\<close>

lemma rebuildTree_Nil: "rebuildTree H m [] level ixm = Some (Inr (H [], m, ixm))"
  by (subst rebuildTree.simps) simp

lemma rebuildTree_single: "rebuildTree H m [e] level ixm = Some (Inr (e, m, ixm))"
  by (subst rebuildTree.simps) simp

lemma rebuildTree_step:
  "2 \<le> length entries \<Longrightarrow>
   rebuildTree H m entries level ixm =
     do {
       r1 \<leftarrow> rebuildTree H m (take (largestPowerOf2SmallerThan (length entries)) entries) (level - 1) ixm;
       case r1 of
         Inl e \<Rightarrow> Some (Inl e)
       | Inr (left, m1, ixm1) \<Rightarrow>
           do {
             r2 \<leftarrow> rebuildTree H m1 (drop (largestPowerOf2SmallerThan (length entries)) entries) (level - 1) ixm1;
             case r2 of
               Inl e \<Rightarrow> Some (Inl e)
             | Inr (right, m2, ixm2) \<Rightarrow>
                 (case index (tree m2) level of
                    Inl e \<Rightarrow> Some (Inl e)
                  | Inr row \<Rightarrow>
                      if read_index ixm2 level = int (length row) then
                        Some (Inr (nodeHash H (left @ right),
                                   m2\<lparr>tree := (tree m2)[nat level := row @ [nodeHash H (left @ right)]]\<rparr>,
                                   ixm2(level \<mapsto> read_index ixm2 level + 1)))
                      else
                        (case store row (read_index ixm2 level) (nodeHash H (left @ right)) of
                           Inl e \<Rightarrow> Some (Inl e)
                         | Inr row' \<Rightarrow>
                             Some (Inr (nodeHash H (left @ right),
                                        m2\<lparr>tree := (tree m2)[nat level := row']\<rparr>,
                                        ixm2(level \<mapsto> read_index ixm2 level + 1)))))
           }
     }"
  by (subst rebuildTree.simps) (auto simp add: Let_def)

lemma index_inv_put:
  assumes "index_inv m ixm" "L < length (tree m)"
  shows "index_inv (m\<lparr>tree := (tree m)[L := put_digest (tree m ! L) (read_index ixm (int L)) h]\<rparr>)
           (ixm(int L \<mapsto> read_index ixm (int L) + 1))"
proof -
  have a: "0 \<le> read_index ixm (int L)" "read_index ixm (int L) \<le> int (length (tree m ! L))"
    using assms by (auto simp: index_inv_def)
  have r: "\<And>j. read_index (ixm(int L \<mapsto> read_index ixm (int L) + 1)) j =
      (if j = int L then read_index ixm (int L) + 1 else read_index ixm j)"
    by (simp add: read_index_def)
  show ?thesis
    unfolding index_inv_def r
  proof (intro conjI allI impI)
    fix j show "0 \<le> (if j = int L then read_index ixm (int L) + 1 else read_index ixm j)"
      using assms(1) a by (simp add: index_inv_def)
  next
    fix j assume "j < length (tree (m\<lparr>tree := (tree m)[L := put_digest (tree m ! L) (read_index ixm (int L)) h]\<rparr>))"
    then have j: "j < length (tree m)" by simp
    show "(if int j = int L then read_index ixm (int L) + 1 else read_index ixm (int j))
       \<le> int (length (tree (m\<lparr>tree := (tree m)[L := put_digest (tree m ! L) (read_index ixm (int L)) h]\<rparr>) ! j))"
    proof (cases "j = L")
      case True
      then show ?thesis using a j by (auto simp: put_digest_def)
    next
      case False
      then show ?thesis using assms(1) j by (simp add: index_inv_def)
    qed
  qed
qed

lemma rebuildTree_correct:
  assumes "length D \<le> 2 ^ 63" "length D \<le> 2 ^ L" "L < length (tree m)" "index_inv m ixm"
  shows "\<exists>m' ixm'. rebuildTree H m (map (leafHash H) D) (int L) ixm = Some (Inr (the (MTH H D), m', ixm'))
      \<and> length (tree m') = length (tree m)
      \<and> (\<forall>j. L < j \<or> j = 0 \<longrightarrow> tree m' ! j = tree m ! j)
      \<and> (\<forall>j. int L < j \<longrightarrow> ixm' j = ixm j)
      \<and> index_inv m' ixm'
      \<and> (2 \<le> length D \<longrightarrow> tree m' ! L = put_digest (tree m ! L) (read_index ixm (int L)) (the (MTH H D)))
      \<and> (length D < 2 \<longrightarrow> m' = m)"
  using assms
proof (induction "length D" arbitrary: D L m ixm rule: less_induct)
  case less
  show ?case
  proof (cases D rule: list_cases3)
    case 1
    then show ?thesis using less.prems(4) by (simp add: rebuildTree_Nil MTH_Nil)
  next
    case (2 d)
    then show ?thesis using less.prems(4) by (simp add: rebuildTree_single MTH_single)
  next
    case 3
    define k where "k = largestPowerOf2SmallerThan (length D)"
    have k: "0 < k" "k < length D"
      using largestPowerOf2SmallerThan_bounds[OF 3 less.prems(1)] by (simp_all add: k_def)
    have fits: "0 < L" "k \<le> 2 ^ (L - 1)" "length D - k \<le> 2 ^ (L - 1)"
      using split_fits[OF 3 less.prems(1,2)] by (simp_all add: k_def)
    have lv: "int L - 1 = int (L - 1)" using fits(1) by simp
    define a where "a = the (MTH H (take k D))"
    define b where "b = the (MTH H (drop k D))"
    have "length (take k D) < length D" "length (take k D) \<le> 2 ^ 63"
      "length (take k D) \<le> 2 ^ (L - 1)" "L - 1 < length (tree m)"
      using k fits less.prems by simp_all
    from less.hyps[OF this less.prems(4)] obtain m1 ixm1 where m1:
      "rebuildTree H m (map (leafHash H) (take k D)) (int (L - 1)) ixm = Some (Inr (a, m1, ixm1))"
      "length (tree m1) = length (tree m)"
      "\<forall>j. L - 1 < j \<or> j = 0 \<longrightarrow> tree m1 ! j = tree m ! j"
      "\<forall>j. int (L - 1) < j \<longrightarrow> ixm1 j = ixm j"
      "index_inv m1 ixm1"
      unfolding a_def by blast
    have "length (drop k D) < length D" "length (drop k D) \<le> 2 ^ 63"
      "length (drop k D) \<le> 2 ^ (L - 1)" "L - 1 < length (tree m1)"
      using k fits less.prems m1(2) by simp_all
    from less.hyps[OF this m1(5)] obtain m2 ixm2 where m2:
      "rebuildTree H m1 (map (leafHash H) (drop k D)) (int (L - 1)) ixm1 = Some (Inr (b, m2, ixm2))"
      "length (tree m2) = length (tree m1)"
      "\<forall>j. L - 1 < j \<or> j = 0 \<longrightarrow> tree m2 ! j = tree m1 ! j"
      "\<forall>j. int (L - 1) < j \<longrightarrow> ixm2 j = ixm1 j"
      "index_inv m2 ixm2"
      unfolding b_def by blast
    have root: "the (MTH H D) = nodeHash H (a @ b)"
      unfolding a_def b_def using MTH_split[OF 3 less.prems(1) k_def] .
    have L2: "L < length (tree m2)" using m1(2) m2(2) less.prems(3) by simp
    have row: "tree m2 ! L = tree m ! L" using m1(3) m2(3) fits(1) by simp
    have "ixm2 (int L) = ixm (int L)" using m1(4) m2(4) fits(1) by simp
    then have ri: "read_index ixm2 (int L) = read_index ixm (int L)" by (simp add: read_index_def)
    have idx: "index (tree m2) (int L) = Inr (tree m ! L)"
      using L2 row by (simp add: index_def)
    have bounds: "0 \<le> read_index ixm (int L)" "read_index ixm (int L) \<le> int (length (tree m ! L))"
      using m2(5) L2 row ri by (auto simp: index_inv_def dest: spec[of _ "int L"] spec[of _ L])
    define row' where "row' = put_digest (tree m ! L) (read_index ixm (int L)) (nodeHash H (a @ b))"
    define m' where "m' = m2\<lparr>tree := (tree m2)[L := row']\<rparr>"
    define ixm' where "ixm' = ixm2(int L \<mapsto> read_index ixm (int L) + 1)"
    have run: "rebuildTree H m (map (leafHash H) D) (int L) ixm = Some (Inr (nodeHash H (a @ b), m', ixm'))"
      using 3 m1(1) m2(1) idx bounds
      by (simp add: rebuildTree_step k_def[symmetric] take_map drop_map lv m'_def ixm'_def row'_def
          put_digest_def ri store_def)
    have "length (tree m') = length (tree m)" using m1(2) m2(2) by (simp add: m'_def)
    moreover have "\<forall>j. L < j \<or> j = 0 \<longrightarrow> tree m' ! j = tree m ! j"
      using m1(3) m2(3) fits(1) by (auto simp: m'_def)
    moreover have "\<forall>j. int L < j \<longrightarrow> ixm' j = ixm j"
      using m1(4) m2(4) fits(1) by (auto simp: ixm'_def)
    moreover have "index_inv m' ixm'"
      using index_inv_put[OF m2(5) L2, of "nodeHash H (a @ b)"]
      by (simp add: m'_def ixm'_def row'_def row ri)
    moreover have "tree m' ! L = put_digest (tree m ! L) (read_index ixm (int L)) (nodeHash H (a @ b))"
      using L2 by (simp add: m'_def row'_def)
    ultimately show ?thesis using run root 3 by auto
  qed
qed

lemma Append_leaves_ok:
  "t \<noteq> [] \<Longrightarrow> Append_leaves H t d = Inr (t[0 := t ! 0 @ map (leafHash H) d])"
proof (induction d arbitrary: t)
  case Nil
  then show ?case by simp
next
  case (Cons e d)
  have "index t 0 = Inr (t ! 0)" using Cons.prems by (simp add: index_def)
  moreover have "t[0 := t ! 0 @ [leafHash H e]] \<noteq> []" using Cons.prems by simp
  ultimately show ?case using Cons.IH[of "t[0 := t ! 0 @ [leafHash H e]]"] Cons.prems by simp
qed

lemma put_digest_top: "length row \<le> 1 \<Longrightarrow> put_digest row 0 h = [h]"
  by (cases row) (simp_all add: put_digest_def)

lemma index_inv_empty: "index_inv m Map.empty"
  by (simp add: index_inv_def read_index_def)

lemma Append_correct:
  assumes "tree_inv H m D" "length (D @ d) \<le> 2 ^ 63"
  shows "\<exists>m'. Append H m d = Some (Inr (the (MTH H (D @ d)), m')) \<and> tree_inv H m' (D @ d)"
proof -
  define E where "E = D @ d"
  have inv: "D \<noteq> []" "tree m \<noteq> []" "tree m ! 0 = map (leafHash H) D"
    "int (length (tree m)) = levels (int (length D))"
    "tree m ! (length (tree m) - 1) = [the (MTH H D)]"
    using assms(1) by (simp_all add: tree_inv_def)
  have n: "1 \<le> length D" "length D \<le> length E" "1 \<le> length E" "length E \<le> 2 ^ 63" "E \<noteq> []"
    using inv(1) assms(2) by (cases D; simp add: E_def)+
  define t1 where "t1 = (tree m)[0 := map (leafHash H) E]"
  have al: "Append_leaves H (tree m) d = Inr t1"
    using Append_leaves_ok[OF inv(2)] inv(3) by (simp add: t1_def E_def)
  have i0: "index t1 0 = Inr (map (leafHash H) E)" using inv(2) by (simp add: index_def t1_def)
  obtain L where L: "levels (int (length E)) = int L + 1" "length E \<le> 2 ^ L"
    using levels_ceil[OF n(3)] by blast
  have mono: "int (length (tree m)) \<le> int L + 1"
    using levels_mono[OF n(1,2)] inv(4) L(1) by simp
  define t2 where "t2 = t1 @ replicate (nat (int L + 1 - int (length t1))) []"
  have lt2: "length t2 = L + 1" using mono by (simp add: t2_def t1_def)
  have t20: "t2 ! 0 = map (leafHash H) E" using inv(2) by (simp add: t2_def t1_def nth_append)
  have top_small: "length (t2 ! L) \<le> 1"
  proof (cases "L < length t1")
    case True
    then have eq: "length (tree m) = L + 1" using mono by (simp add: t1_def)
    show ?thesis
    proof (cases "L = 0")
      case True
      then have "length E = 1" using L(2) n(3) by simp
      then show ?thesis using True t20 by simp
    next
      case False
      then have "t2 ! L = tree m ! L" using eq by (simp add: t2_def t1_def nth_append)
      then show ?thesis using inv(5) eq by simp
    qed
  next
    case False
    then have "t2 ! L = []" using lt2 by (simp add: t2_def nth_append)
    then show ?thesis by simp
  qed
  have "L < length (tree \<lparr>tree = t2\<rparr>)" using lt2 by simp
  from rebuildTree_correct[OF n(4) L(2) this index_inv_empty, of H]
  obtain m' ixm' where m':
    "rebuildTree H \<lparr>tree = t2\<rparr> (map (leafHash H) E) (int L) Map.empty = Some (Inr (the (MTH H E), m', ixm'))"
    "length (tree m') = length t2"
    "\<forall>j. L < j \<or> j = 0 \<longrightarrow> tree m' ! j = t2 ! j"
    "2 \<le> length E \<longrightarrow> tree m' ! L = put_digest (t2 ! L) (read_index Map.empty (int L)) (the (MTH H E))"
    "length E < 2 \<longrightarrow> m' = \<lparr>tree = t2\<rparr>"
    by auto
  have run: "Append H m d = Some (Inr (the (MTH H E), m'))"
    using al i0 L(1) m'(1) by (simp add: Append_def Let_def t2_def)
  have top: "tree m' ! L = [the (MTH H E)]"
  proof (cases "2 \<le> length E")
    case True
    then show ?thesis using m'(4) put_digest_top[OF top_small] by (simp add: read_index_def)
  next
    case False
    then obtain e where e: "E = [e]" using n(5) by (cases E rule: list_cases3) auto
    have "levels 1 = 1" using levels_pow2[of 0] by simp
    then have "L = 0" using L(1) e by simp
    moreover have "m' = \<lparr>tree = t2\<rparr>" using False m'(5) by simp
    ultimately show ?thesis using e t20 by (simp add: MTH_single)
  qed
  have t0: "tree m' ! 0 = map (leafHash H) E" using m'(3) t20 by simp
  have "tree_inv H m' E"
    using n(5) m'(2) lt2 t0 top L(1) by (auto simp: tree_inv_def)
  then show ?thesis using run by (auto simp: E_def)
qed

lemma New_inv:
  assumes "D \<noteq> []" "length D \<le> 2 ^ 63"
  shows "\<exists>m. New H D = Some (Inr m) \<and> tree_inv H m D"
proof -
  obtain m where m: "New H D = Some (Inr m)" "int (length (tree m)) = levels (int (length D))"
    "tree m ! 0 = map (leafHash H) D" "tree m ! (length (tree m) - 1) = [the (MTH H D)]"
    using New_correct[OF assms, of H] by blast
  have "1 \<le> length D" using assms(1) by (cases D) simp_all
  then obtain L where "levels (int (length D)) = int L + 1" using levels_ceil by blast
  then have "tree m \<noteq> []" using m(2) by auto
  then show ?thesis using m assms(1) by (auto simp: tree_inv_def)
qed

lemma Appends_correct:
  assumes "tree_inv H m D" "length (D @ concat ds) \<le> 2 ^ 63"
  shows "\<exists>m'. Appends H m ds = Some (Inr m') \<and> tree_inv H m' (D @ concat ds)"
  using assms
proof (induction ds arbitrary: m D)
  case Nil
  then show ?case by simp
next
  case (Cons d ds)
  have "length (D @ d) \<le> 2 ^ 63" using Cons.prems(2) by simp
  from Append_correct[OF Cons.prems(1) this] obtain m1 where
    m1: "Append H m d = Some (Inr (the (MTH H (D @ d)), m1))" "tree_inv H m1 (D @ d)" by blast
  have "length ((D @ d) @ concat ds) \<le> 2 ^ 63" using Cons.prems(2) by simp
  from Cons.IH[OF m1(2) this] obtain m' where
    "Appends H m1 ds = Some (Inr m')" "tree_inv H m' ((D @ d) @ concat ds)" by blast
  then show ?case using m1(1) by simp
qed

lemma tree_inv_root:
  assumes "tree_inv H m D" "length D \<le> 2 ^ 63"
  shows "\<exists>h. MerkleRoot m = Inr h \<and> MTH H D = Some h"
  using assms MerkleRoot_top[of m "the (MTH H D)"] MTH_the[of D H] by (auto simp: tree_inv_def)

section \<open>Reachable trees\<close>

lemma levels_formula:
  assumes "1 \<le> n"
  shows "levels n = \<lfloor>log 2 (real_of_int n)\<rfloor> + (if \<exists>k::nat. n = 2 ^ k then 1 else 2)"
proof -
  have "1 \<le> nat n" using assms by simp
  then obtain j where "2 ^ j \<le> nat n" "nat n < 2 ^ (j + 1)"
    using ex_power_ivl1[of 2 "nat n"] by auto
  then have "int (2 ^ j) \<le> int (nat n)" "int (nat n) < int (2 ^ (j + 1))"
    by (simp_all only: of_nat_le_iff of_nat_less_iff)
  then have j: "2 ^ j \<le> n" "n < 2 ^ (j + 1)" using assms by simp_all
  have lg: "log2_int n = int j" using j by (rule log2_int_between)
  then have fl: "\<lfloor>log 2 (real_of_int n)\<rfloor> = int j" using assms by (simp add: log2_int_def)
  show ?thesis
  proof (cases "n = 2 ^ j")
    case True
    then have "\<exists>k::nat. n = 2 ^ k" by blast
    then show ?thesis using levels_pow2[of j] True fl by simp
  next
    case False
    have "\<not> (\<exists>k::nat. n = 2 ^ k)"
    proof
      assume "\<exists>k::nat. n = 2 ^ k"
      then obtain k :: nat where k: "n = 2 ^ k" by blast
      have "(2::int) ^ j < 2 ^ k" "(2::int) ^ k < 2 ^ (j + 1)" using j False k by simp_all
      then have "j < k" "k < j + 1"
        using power_less_imp_less_exp[of "2::int" j k] power_less_imp_less_exp[of "2::int" k "j + 1"]
        by simp_all
      then show False by simp
    qed
    moreover have "levels n = int j + 2" using j False by (intro levels_between) simp_all
    ultimately show ?thesis using fl by simp
  qed
qed

lemma levels_small: "levels 1 = 1" "levels 2 = 2" "levels 3 = 3" "levels 4 = 3"
  using levels_pow2[of 0] levels_pow2[of 1] levels_pow2[of 2] levels_between[of 1 3]
  by simp_all

lemma reachable_tree:
  assumes "D \<noteq> []" "length (D @ concat ds) < 2 ^ 63"
  shows "\<exists>m m'. New H D = Some (Inr m) \<and> Appends H m ds = Some (Inr m') \<and> tree_inv H m' (D @ concat ds)"
proof -
  have b: "length (D @ concat ds) \<le> 2 ^ 63" using assms(2) by simp
  then have "length D \<le> 2 ^ 63" by simp
  from New_inv[OF assms(1) this] obtain m where m: "New H D = Some (Inr m)" "tree_inv H m D" by blast
  from Appends_correct[OF m(2) b] m(1) show ?thesis by blast
qed

section \<open>Audit paths and consistency proofs\<close>

lemma Path_single: "Path H 0 [d] = Some []"
  by (subst Path.simps) simp

lemma Path_step:
  "2 \<le> length D \<Longrightarrow> m < length D \<Longrightarrow>
   Path H m D =
     (if m < largestPowerOf2SmallerThan (length D) then
        do {
          p \<leftarrow> Path H m (take (largestPowerOf2SmallerThan (length D)) D);
          x \<leftarrow> MTH H (drop (largestPowerOf2SmallerThan (length D)) D);
          Some (p @ [x])
        }
      else
        do {
          p \<leftarrow> Path H (m - largestPowerOf2SmallerThan (length D)) (drop (largestPowerOf2SmallerThan (length D)) D);
          x \<leftarrow> MTH H (take (largestPowerOf2SmallerThan (length D)) D);
          Some (p @ [x])
        })"
  by (subst Path.simps) (auto simp add: Let_def)

lemma Path_fold:
  assumes "m < length D" "length D \<le> 2 ^ 63"
  shows "\<exists>p. Path H m D = Some p \<and>
     fold_path_rev H m (length D) (leafHash H (D ! m)) (rev p) = the (MTH H D)"
  using assms
proof (induction "length D" arbitrary: D m rule: less_induct)
  case less
  show ?case
  proof (cases D rule: list_cases3)
    case 1
    then show ?thesis using less.prems by simp
  next
    case (2 d)
    then show ?thesis using less.prems by (simp add: Path_single MTH_single)
  next
    case 3
    define k where "k = largestPowerOf2SmallerThan (length D)"
    have k: "0 < k" "k < length D"
      using largestPowerOf2SmallerThan_bounds[OF 3 less.prems(2)] by (simp_all add: k_def)
    define a where "a = the (MTH H (take k D))"
    define b where "b = the (MTH H (drop k D))"
    have bt: "length (take k D) \<le> 2 ^ 63" and bd: "length (drop k D) \<le> 2 ^ 63"
      using take_drop_bound[OF less.prems(2)] by blast+
    have ma: "MTH H (take k D) = Some a" and mb: "MTH H (drop k D) = Some b"
      unfolding a_def b_def using MTH_the[OF bt] MTH_the[OF bd] by blast+
    have root: "the (MTH H D) = nodeHash H (a @ b)"
      unfolding a_def b_def using MTH_split[OF 3 less.prems(2) k_def] .
    show ?thesis
    proof (cases "m < k")
      case True
      have "length (take k D) < length D" "m < length (take k D)" using k True by simp_all
      from less.hyps[OF this bt] obtain p where p: "Path H m (take k D) = Some p"
        "fold_path_rev H m (length (take k D)) (leafHash H (take k D ! m)) (rev p) = a"
        unfolding a_def by blast
      have lk: "length (take k D) = k" using k by simp
      have "Path H m D = Some (p @ [b])"
        using 3 less.prems(1) True p(1) mb by (simp add: Path_step k_def[symmetric])
      moreover have "fold_path_rev H m (length D) (leafHash H (D ! m)) (rev (p @ [b])) = nodeHash H (a @ b)"
        using True p(2) lk by (simp add: k_def[symmetric])
      ultimately show ?thesis using root by simp
    next
      case False
      have "length (drop k D) < length D" "m - k < length (drop k D)"
        using k False less.prems(1) by simp_all
      from less.hyps[OF this bd] obtain p where p: "Path H (m - k) (drop k D) = Some p"
        "fold_path_rev H (m - k) (length (drop k D)) (leafHash H (drop k D ! (m - k))) (rev p) = b"
        unfolding b_def by blast
      have nth: "drop k D ! (m - k) = D ! m" using False k less.prems(1) by simp
      have "Path H m D = Some (p @ [a])"
        using 3 less.prems(1) False p(1) ma by (simp add: Path_step k_def[symmetric])
      moreover have "fold_path_rev H m (length D) (leafHash H (D ! m)) (rev (p @ [a])) = nodeHash H (a @ b)"
        using False p(2) nth by (simp add: k_def[symmetric])
      ultimately show ?thesis using root by simp
    qed
  qed
qed

lemma subProof_known: "subProof H (length D) D True = Some []"
  by (subst subProof.simps) simp


lemma subProof_step:
  "m < length D \<Longrightarrow>
   subProof H m D b =
     (if m \<le> largestPowerOf2SmallerThan (length D) then
        do {
          p \<leftarrow> subProof H m (take (largestPowerOf2SmallerThan (length D)) D) b;
          x \<leftarrow> MTH H (drop (largestPowerOf2SmallerThan (length D)) D);
          Some (p @ [x])
        }
      else
        do {
          p \<leftarrow> subProof H (m - largestPowerOf2SmallerThan (length D)) (drop (largestPowerOf2SmallerThan (length D)) D) False;
          x \<leftarrow> MTH H (take (largestPowerOf2SmallerThan (length D)) D);
          Some (p @ [x])
        })"
  by (subst subProof.simps) (auto simp add: Let_def)



lemma subProof_zero:
  assumes "D \<noteq> []" "length D \<le> 2 ^ 63"
  shows "\<exists>p. subProof H 0 D True = Some p \<and> int (length p) = levels (int (length D)) \<and>
     hd p = leafHash H (D ! 0)"
  using assms
proof (induction "length D" arbitrary: D rule: less_induct)
  case less
  show ?case
  proof (cases D rule: list_cases3)
    case 1
    then show ?thesis using less.prems by simp
  next
    case (2 d)
    have "levels 1 = 1" using levels_pow2[of 0] by simp
    then show ?thesis
      using 2 subProof_step[of 0 "[d]" H True] subProof_known[of H "[]"]
      by (simp add: MTH_single)
  next
    case 3
    define k where "k = largestPowerOf2SmallerThan (length D)"
    obtain i where i: "k = 2 ^ i" "2 ^ i < length D" "length D \<le> 2 ^ (i + 1)"
      using largestPowerOf2SmallerThan_spec[OF 3 less.prems(2)] unfolding k_def by blast
    have k: "0 < k" "k < length D" using i by simp_all
    have bt: "length (take k D) \<le> 2 ^ 63" and bd: "length (drop k D) \<le> 2 ^ 63"
      using take_drop_bound[OF less.prems(2)] by blast+
    obtain c where mc: "MTH H (drop k D) = Some c" using MTH_total[OF bd] by blast
    have "length (take k D) < length D" "take k D \<noteq> []" using k 3 by auto
    from less.hyps[OF this bt] obtain p where p: "subProof H 0 (take k D) True = Some p"
      "int (length p) = levels (int (length (take k D)))" "hd p = leafHash H (take k D ! 0)"
      by blast
    have "length (take k D) = 2 ^ i" using k i(1) by simp
    then have "int (length (take k D)) = 2 ^ i" by simp
    then have lp: "int (length p) = int i + 1" using p(2) levels_pow2[of i] by simp
    then have pne: "p \<noteq> []" by auto
    have run: "subProof H 0 D True = Some (p @ [c])"
      using less.prems(1) k p(1) mc subProof_step[of 0 D H True] by (simp add: k_def[symmetric])
    have lv: "levels (int (length D)) = int i + 2"
    proof (cases "length D = 2 ^ (i + 1)")
      case True
      then have "int (length D) = 2 ^ (i + 1)" by simp
      then show ?thesis using levels_pow2[of "i + 1"] by simp
    next
      case False
      then have "length D < 2 ^ (i + 1)" using i(3) by simp
      then have "int (2 ^ i) < int (length D)" "int (length D) < int (2 ^ (i + 1))"
        using i(2) by (simp_all only: of_nat_less_iff)
      then have "2 ^ i < int (length D)" "int (length D) < 2 ^ (i + 1)" by simp_all
      then show ?thesis by (rule levels_between)
    qed
    have "hd (p @ [c]) = leafHash H (D ! 0)" using pne p(3) k by simp
    then show ?thesis using run lp lv by simp
  qed
qed

section \<open>Evaluation on small trees\<close>

lemma pow2_int_numeral: "pow2_int (numeral v) = 2 ^ numeral v" "pow2_int 1 = 2" "pow2_int 0 = 1"
  using pow2_int_nat[of "numeral v"] pow2_int_nat[of 1] pow2_int_nat[of 0] by simp_all

lemma levels_6: "levels 6 = 4"
  using levels_between[of 2 6] by simp

lemma levels_3: "levels 3 = 3"
  using levels_between[of 1 3] by simp

lemma levels_11: "levels 11 = 5"
  using levels_between[of 3 11] by simp

lemma AduitPath_leaf: "AduitPath mth m m m = Some (Inr [])"
  by (subst AduitPath.simps) simp

lemma AduitPath_step:
  "start \<le> m \<Longrightarrow> m \<le> end' \<Longrightarrow> start < end' \<Longrightarrow>
   AduitPath mth m start end' =
     (let k = start + int (largestPowerOf2SmallerThan (nat ((end' - start + 1) mod 2 ^ 64))) in
      if m < k then
        do {
          r \<leftarrow> AduitPath mth m start (k - 1);
          case r of
            Inl e \<Rightarrow> Some (Inl e)
          | Inr p \<Rightarrow>
              (case mthOfRange mth k end' of
                 Inl e \<Rightarrow> Some (Inl e)
               | Inr x \<Rightarrow> Some (Inr (p @ [x])))
        }
      else
        do {
          r \<leftarrow> AduitPath mth m k end';
          case r of
            Inl e \<Rightarrow> Some (Inl e)
          | Inr p \<Rightarrow>
              (case mthOfRange mth start (k - 1) of
                 Inl e \<Rightarrow> Some (Inl e)
               | Inr x \<Rightarrow> Some (Inr (p @ [x])))
        })"
  by (subst AduitPath.simps) (simp add: Let_def)

section \<open>Claims\<close>

text \<open>
  C1, as amended. For every entry list \<open>D\<close> with at least one entry (and a slice length),
  \<^verbatim>\<open>New(D)\<close> returns a tree, \<^verbatim>\<open>MerkleRoot()\<close> returns a digest on it, and that digest is
  \<^verbatim>\<open>MTH(D)\<close>.
\<close>

theorem New_MerkleRoot_eq_MTH:
  assumes "D \<noteq> []" "length D < 2 ^ 63"
  shows "\<exists>m h. New H D = Some (Inr m) \<and> MerkleRoot m = Inr h \<and> MTH H D = Some h"
proof -
  have b: "length D \<le> 2 ^ 63" using assms(2) by simp
  from New_inv[OF assms(1) b] obtain m where m: "New H D = Some (Inr m)" "tree_inv H m D" by blast
  from tree_inv_root[OF m(2) b] m(1) show ?thesis by blast
qed

text \<open>
  An instance of C1: three one-byte entries, with the identity for the hash.
\<close>

theorem New_MerkleRoot_eq_MTH_witness:
  "[[1], [2], [3 :: byte]] \<noteq> [] \<and> length [[1], [2], [3 :: byte]] < 2 ^ 63 \<and>
   (\<exists>m h. New id_hash [[1], [2], [3]] = Some (Inr m) \<and> MerkleRoot m = Inr h \<and>
      MTH id_hash [[1], [2], [3]] = Some h)"
  using New_MerkleRoot_eq_MTH[of "[[1], [2], [3]]" id_hash] by simp

text \<open>
  C1 as stated includes \<open>n = 0\<close>. There \<^verbatim>\<open>MTH\<close> returns the hash of the empty string, but
  \<^verbatim>\<open>levels(0)\<close> is negative and \<^verbatim>\<open>New\<close> panics in \<^verbatim>\<open>make\<close>: there is no tree and no root.
\<close>

theorem New_empty_list_panics:
  "MTH id_hash [] = Some [] \<and> New id_hash [] = Some (Inl MakeSliceLenOutOfRange)"
  by (simp add: MTH_Nil New_Nil id_hash_def)

text \<open>
  C2. For every entry list \<open>D\<close> and index \<open>m\<close> below its length, \<^verbatim>\<open>Path(m, D)\<close> returns, and
  folding its digests from \<^verbatim>\<open>leafHash(D[m])\<close> upwards, with the side of each sibling derived
  from \<open>m\<close> and the length alone, gives \<^verbatim>\<open>MTH(D)\<close>.
\<close>

theorem audit_path_folds_to_root:
  assumes "m < length D" "length D < 2 ^ 63"
  shows "\<exists>p r. Path H m D = Some p \<and> MTH H D = Some r \<and>
     fold_path H m (length D) (leafHash H (D ! m)) p = r"
proof -
  have b: "length D \<le> 2 ^ 63" using assms(2) by simp
  from Path_fold[OF assms(1) b] MTH_the[OF b] show ?thesis
    unfolding fold_path_def by blast
qed

text \<open>
  An instance of C2: the last of three entries.
\<close>

theorem audit_path_folds_to_root_witness:
  "(2::nat) < length [[1], [2], [3 :: byte]] \<and> length [[1], [2], [3 :: byte]] < 2 ^ 63 \<and>
   (\<exists>p r. Path id_hash 2 [[1], [2], [3]] = Some p \<and> MTH id_hash [[1], [2], [3]] = Some r \<and>
      fold_path id_hash 2 (length [[1], [2], [3 :: byte]]) (leafHash id_hash ([[1], [2], [3]] ! 2)) p = r)"
  using audit_path_folds_to_root[of 2 "[[1], [2], [3]]" id_hash] by simp

text \<open>
  C3 at two failing inputs. \<^verbatim>\<open>buildTree\<close> files the digest of a subtree at the level counted
  down from the root, \<^verbatim>\<open>mthOfRange\<close> looks it up at the level counted up from the leaves
  (\<^verbatim>\<open>levels(end-start+1)-1\<close>); the two differ where a right subtree is shallower than its
  left sibling. With six leaves the digest of the range \<open>[4, 5]\<close> is \<^verbatim>\<open>tree[2][1]\<close>, and
  \<^verbatim>\<open>mthOfRange(4, 5)\<close> reads \<^verbatim>\<open>tree[1][2]\<close>, out of range. With eleven leaves
  \<^verbatim>\<open>mthOfRange(8, 10)\<close> is in range and returns the digest of \<open>[8, 9]\<close>, not that of
  \<open>[8, 10]\<close>.
\<close>

theorem mthOfRange_misses_stored_digest:
  "(\<exists>m. New H [d0, d1, d2, d3, d4, d5] = Some (Inr m) \<and>
      MTH H [d4, d5] = Some (tree m ! 2 ! 1) \<and>
      mthOfRange m 4 5 = Inl IndexOutOfRange) \<and>
   (\<exists>m. New H [d0, d1, d2, d3, d4, d5, d6, d7, d8, d9, d10] = Some (Inr m) \<and>
      mthOfRange m 8 10 = Inr (nodeHash H (leafHash H d8 @ leafHash H d9)) \<and>
      MTH H [d8, d9, d10] =
        Some (nodeHash H (nodeHash H (leafHash H d8 @ leafHash H d9) @ leafHash H d10)))"
  by (simp add: New_def levels_6 levels_11 levels_3 levels_small
      largestPowerOf2SmallerThan_def largestPowerOf2SmallerThan_loop_numeral
      index_def store_def buildTree_Nil buildTree_single buildTree_step
      mthOfRange_def pow2_int_numeral signed_divide_int_def MTH_single MTH_step)

text \<open>
  C4 at a failing input. On the tree of six entries \<^verbatim>\<open>AduitPath(0, 0, 5)\<close>, which is what
  \<^verbatim>\<open>InclusionProof\<close> of the first entry calls, panics in \<^verbatim>\<open>mthOfRange(4, 5)\<close>; the static
  \<^verbatim>\<open>Path(0, D)\<close> returns three digests.
\<close>

theorem AduitPath_six_leaves_panics:
  "(\<exists>m. New H [d0, d1, d2, d3, d4, d5] = Some (Inr m) \<and>
      AduitPath m 0 0 5 = Some (Inl IndexOutOfRange) \<and>
      InclusionProof H m d0 = Some (Inl IndexOutOfRange)) \<and>
   Path H 0 [d0, d1, d2, d3, d4, d5] =
     Some [leafHash H d1, nodeHash H (leafHash H d2 @ leafHash H d3),
           nodeHash H (leafHash H d4 @ leafHash H d5)]"
  by (simp add: New_def levels_6 levels_small
      largestPowerOf2SmallerThan_def largestPowerOf2SmallerThan_loop_numeral
      index_def store_def buildTree_Nil buildTree_single buildTree_step
      mthOfRange_def pow2_int_numeral signed_divide_int_def MTH_single MTH_step
      AduitPath_leaf AduitPath_step InclusionProof_def IndexOf_def Path_single Path_step)



text \<open>
  C6. For every initial entry list \<open>D\<close> and further entries \<open>es\<close>: either \<open>D\<close> is empty and
  \<^verbatim>\<open>New\<close> builds no tree to append to, or appending the entries of \<open>es\<close> one \<^verbatim>\<open>Append\<close> call
  each and appending them in a single call leave trees with the same \<^verbatim>\<open>MerkleRoot()\<close>,
  which is also the digest the single call returns.
\<close>

theorem append_one_at_a_time_same_root:
  assumes "length (D @ es) < 2 ^ 63"
  shows "(D = [] \<and> New H D = Some (Inl MakeSliceLenOutOfRange)) \<or>
     (\<exists>m m1 m2 r h. New H D = Some (Inr m) \<and>
        Appends H m (map (\<lambda>e. [e]) es) = Some (Inr m1) \<and>
        Append H m es = Some (Inr (r, m2)) \<and>
        MerkleRoot m1 = Inr h \<and> MerkleRoot m2 = Inr h \<and> r = h)"
proof (cases "D = []")
  case True
  then show ?thesis by (simp add: New_Nil)
next
  case False
  have b: "length (D @ es) \<le> 2 ^ 63" using assms by simp
  then have "length D \<le> 2 ^ 63" by simp
  from New_inv[OF False this] obtain m where m: "New H D = Some (Inr m)" "tree_inv H m D" by blast
  have c: "concat (map (\<lambda>e. [e]) es) = es" by (induction es) simp_all
  from Appends_correct[OF m(2), of "map (\<lambda>e. [e]) es"] b c obtain m1 where
    m1: "Appends H m (map (\<lambda>e. [e]) es) = Some (Inr m1)" "tree_inv H m1 (D @ es)" by auto
  from Append_correct[OF m(2) b] obtain m2 where
    m2: "Append H m es = Some (Inr (the (MTH H (D @ es)), m2))" "tree_inv H m2 (D @ es)" by blast
  obtain h1 where h1: "MerkleRoot m1 = Inr h1" "MTH H (D @ es) = Some h1"
    using tree_inv_root[OF m1(2) b] by blast
  obtain h2 where h2: "MerkleRoot m2 = Inr h2" "MTH H (D @ es) = Some h2"
    using tree_inv_root[OF m2(2) b] by blast
  show ?thesis using m(1) m1(1) m2(1) h1 h2 by auto
qed

text \<open>
  An instance of C6: two initial entries, three appended.
\<close>

theorem append_one_at_a_time_same_root_witness:
  "length ([[1], [2 :: byte]] @ [[3], [4], [5]]) < 2 ^ 63 \<and>
   (\<exists>m m1 m2 r h. New id_hash [[1], [2]] = Some (Inr m) \<and>
        Appends id_hash m (map (\<lambda>e. [e]) [[3], [4], [5]]) = Some (Inr m1) \<and>
        Append id_hash m [[3], [4], [5]] = Some (Inr (r, m2)) \<and>
        MerkleRoot m1 = Inr h \<and> MerkleRoot m2 = Inr h \<and> r = h)"
  using append_one_at_a_time_same_root[of "[[1], [2]]" "[[3], [4], [5]]" id_hash] by simp

text \<open>
  C7 at a failing input. The specification has \<^verbatim>\<open>Path(m, D)\<close> return an empty path for
  every index with \<open>m \<ge> n\<close>. The guard of the code is \<^verbatim>\<open>m > n\<close>: an index above the length
  returns the empty path, but for \<open>m = n = 1\<close> the guard lets the call through, the split
  point is \<open>k = 0\<close>, and the call recurses on \<^verbatim>\<open>Path(m - 0, D[0:1])\<close>, the same arguments: the
  function never returns.
\<close>

theorem Path_index_eq_length_never_returns: "Path H 1 [d] = None \<and> Path H 2 [d] = Some []"
  using Path_diverges[of "[d]" H] Path_beyond[of "[d]" 2 H] by simp

text \<open>
  C8, as amended. \<^verbatim>\<open>MerkleRoot()\<close> has no error result. On a tree without leaves (the zero
  value with no level array, or an empty level 0) its index expression panics with index
  out of range. On a tree built by \<^verbatim>\<open>New\<close> from at least one entry, also after any
  \<^verbatim>\<open>Append\<close> calls, it returns the one digest of the top level.
\<close>

theorem MerkleRoot_panics_or_returns_top:
  assumes "D \<noteq> []" "length (D @ concat ds) < 2 ^ 63"
  shows "MerkleRoot \<lparr>tree = []\<rparr> = Inl IndexOutOfRange \<and>
     MerkleRoot \<lparr>tree = [[]]\<rparr> = Inl IndexOutOfRange \<and>
     (\<exists>m m' h. New H D = Some (Inr m) \<and> Appends H m ds = Some (Inr m') \<and>
        tree m' \<noteq> [] \<and> last (tree m') = [h] \<and> MerkleRoot m' = Inr h)"
proof -
  from reachable_tree[OF assms] obtain m m' where
    m: "New H D = Some (Inr m)" "Appends H m ds = Some (Inr m')" "tree_inv H m' (D @ concat ds)"
    by blast
  have t: "tree m' \<noteq> []" "tree m' ! (length (tree m') - 1) = [the (MTH H (D @ concat ds))]"
    using m(3) by (simp_all add: tree_inv_def)
  then have "last (tree m') = [the (MTH H (D @ concat ds))]" by (simp add: last_conv_nth)
  moreover have "MerkleRoot m' = Inr (the (MTH H (D @ concat ds)))" using t by (rule MerkleRoot_top)
  ultimately show ?thesis using m t(1) by (auto simp: MerkleRoot_def index_def)
qed

text \<open>
  An instance of C8: two entries, then one and two more appended.
\<close>

theorem MerkleRoot_panics_or_returns_top_witness:
  "[[1], [2 :: byte]] \<noteq> [] \<and> length ([[1], [2 :: byte]] @ concat [[[3]], [[4], [5]]]) < 2 ^ 63 \<and>
   MerkleRoot \<lparr>tree = []\<rparr> = Inl IndexOutOfRange \<and>
   (\<exists>m m' h. New id_hash [[1], [2]] = Some (Inr m) \<and>
      Appends id_hash m [[[3]], [[4], [5]]] = Some (Inr m') \<and>
      tree m' \<noteq> [] \<and> last (tree m') = [h] \<and> MerkleRoot m' = Inr h)"
  using MerkleRoot_panics_or_returns_top[of "[[1], [2]]" "[[[3]], [[4], [5]]]" id_hash] by simp

text \<open>
  C8 as stated has \<^verbatim>\<open>MerkleRoot()\<close> fail with an \<^verbatim>\<open>EmptyTree\<close> error that the caller can
  branch on. The code has no such result: on a tree without leaves the outcome is a run-time
  panic.
\<close>

theorem MerkleRoot_without_leaves_panics:
  "MerkleRoot \<lparr>tree = []\<rparr> = Inl IndexOutOfRange \<and> MerkleRoot \<lparr>tree = [[]]\<rparr> = Inl IndexOutOfRange"
  by (simp add: MerkleRoot_def index_def)

text \<open>
  C9. After \<^verbatim>\<open>New\<close> on at least one entry and after every \<^verbatim>\<open>Append\<close> of a sequence of
  calls, level 0 holds one digest per entry, the number of level arrays is \<^verbatim>\<open>levels\<close> of the
  leaf count, and the top level array holds exactly one digest, the root: it is \<^verbatim>\<open>MTH\<close> of
  all entries so far and what \<^verbatim>\<open>MerkleRoot()\<close> returns. \<^verbatim>\<open>levels(n)\<close> is \<open>floor(log2 n) + 1\<close>
  for a power of two and \<open>floor(log2 n) + 2\<close> otherwise, with the four values of the
  specification. Leaf counts and \<open>n\<close> range below \<open>2 ^ 49 - 1\<close>, where the \<^verbatim>\<open>float64\<close> path of
  \<^verbatim>\<open>levels\<close> is exact; every tree that fits in the heap is in that range.
\<close>

theorem level_count_invariant:
  assumes "D \<noteq> []" "length (D @ concat ds) < 2 ^ 49 - 1"
  shows "(\<exists>m m' h. New H D = Some (Inr m) \<and> Appends H m ds = Some (Inr m') \<and>
        length (tree m' ! 0) = length D + length (concat ds) \<and>
        int (length (tree m')) = levels (int (length (tree m' ! 0))) \<and>
        last (tree m') = [h] \<and> MTH H (D @ concat ds) = Some h \<and> MerkleRoot m' = Inr h) \<and>
     (\<forall>n. 1 \<le> n \<and> n < 2 ^ 49 - 1 \<longrightarrow>
        levels n = \<lfloor>log 2 (real_of_int n)\<rfloor> + (if \<exists>k::nat. n = 2 ^ k then 1 else 2)) \<and>
     levels 1 = 1 \<and> levels 2 = 2 \<and> levels 3 = 3 \<and> levels 4 = 3"
proof -
  have lt: "length (D @ concat ds) < 2 ^ 63" using assms(2) by simp
  then have b: "length (D @ concat ds) \<le> 2 ^ 63" by simp
  from reachable_tree[OF assms(1) lt] obtain m m' where
    m: "New H D = Some (Inr m)" "Appends H m ds = Some (Inr m')" "tree_inv H m' (D @ concat ds)"
    by blast
  have t: "tree m' \<noteq> []" "tree m' ! (length (tree m') - 1) = [the (MTH H (D @ concat ds))]"
    "tree m' ! 0 = map (leafHash H) (D @ concat ds)"
    "int (length (tree m')) = levels (int (length (D @ concat ds)))"
    using m(3) by (simp_all add: tree_inv_def)
  obtain h where h: "MerkleRoot m' = Inr h" "MTH H (D @ concat ds) = Some h"
    using tree_inv_root[OF m(3) b] by blast
  have "last (tree m') = [h]" using t(1,2) h(2) by (simp add: last_conv_nth)
  moreover have "length (tree m' ! 0) = length D + length (concat ds)" using t(3) by simp
  ultimately have "\<exists>m m' h. New H D = Some (Inr m) \<and> Appends H m ds = Some (Inr m') \<and>
        length (tree m' ! 0) = length D + length (concat ds) \<and>
        int (length (tree m')) = levels (int (length (tree m' ! 0))) \<and>
        last (tree m') = [h] \<and> MTH H (D @ concat ds) = Some h \<and> MerkleRoot m' = Inr h"
    using m(1,2) t(4) h by (intro exI[of _ m] exI[of _ m'] exI[of _ h]) simp
  then show ?thesis using levels_formula levels_small by blast
qed

text \<open>
  An instance of C9: two entries, then one and two more appended; the level count of six.
\<close>

theorem level_count_invariant_witness:
  "[[1], [2 :: byte]] \<noteq> [] \<and> length ([[1], [2 :: byte]] @ concat [[[3]], [[4], [5]]]) < 2 ^ 49 - 1 \<and>
   (\<exists>m m' h. New id_hash [[1], [2]] = Some (Inr m) \<and>
      Appends id_hash m [[[3]], [[4], [5]]] = Some (Inr m') \<and>
      length (tree m' ! 0) = length [[1], [2 :: byte]] + length (concat [[[3]], [[4 :: byte], [5]]]) \<and>
      int (length (tree m')) = levels (int (length (tree m' ! 0))) \<and>
      last (tree m') = [h] \<and> MTH id_hash ([[1], [2]] @ concat [[[3]], [[4], [5]]]) = Some h \<and>
      MerkleRoot m' = Inr h) \<and>
   (1 :: int) \<le> 6 \<and> (6 :: int) < 2 ^ 49 - 1 \<and>
   levels 6 = \<lfloor>log 2 (real_of_int 6)\<rfloor> + (if \<exists>k::nat. (6 :: int) = 2 ^ k then 1 else 2) \<and>
   levels 4 = 3"
proof -
  have a: "[[1], [2 :: byte]] \<noteq> []" "length ([[1], [2 :: byte]] @ concat [[[3]], [[4], [5]]]) < 2 ^ 49 - 1"
    by simp_all
  note t = level_count_invariant[OF a, of id_hash]
  from t have f: "\<forall>n. 1 \<le> n \<and> n < 2 ^ 49 - 1 \<longrightarrow>
      levels n = \<lfloor>log 2 (real_of_int n)\<rfloor> + (if \<exists>k::nat. n = 2 ^ k then 1 else 2)"
    by blast
  have "levels 6 = \<lfloor>log 2 (real_of_int 6)\<rfloor> + (if \<exists>k::nat. (6 :: int) = 2 ^ k then 1 else 2)"
    using f[rule_format, of 6] by simp
  with a t show ?thesis by simp
qed

text \<open>
  C10. For every entry list \<open>D\<close> with at least one entry, \<^verbatim>\<open>Proof(0, D)\<close> returns a proof
  that is not empty: the recursion goes left down to the empty prefix, where
  \<^verbatim>\<open>subProof(0, {}, true)\<close> is empty, and emits one digest per level on the way back,
  \<^verbatim>\<open>levels(n)\<close> in all, the first being the leaf digest of \<open>D[0]\<close>.
\<close>

theorem consistency_proof_from_zero_length:
  assumes "D \<noteq> []" "length D < 2 ^ 63"
  shows "subProof H 0 [] True = Some [] \<and>
     (\<exists>p. Proof H 0 D = Some p \<and> p \<noteq> [] \<and> int (length p) = levels (int (length D)) \<and>
        hd p = leafHash H (D ! 0))"
proof -
  have b: "length D \<le> 2 ^ 63" using assms(2) by simp
  from subProof_zero[OF assms(1) b, of H] obtain p where p: "subProof H 0 D True = Some p"
    "int (length p) = levels (int (length D))" "hd p = leafHash H (D ! 0)" by blast
  have "1 \<le> length D" using assms(1) by (cases D) simp_all
  then obtain L where "levels (int (length D)) = int L + 1" using levels_ceil by blast
  then have "p \<noteq> []" using p(2) by auto
  moreover have "Proof H 0 D = Some p" using p(1) by (simp add: Proof_def)
  ultimately show ?thesis using p(2,3) subProof_known[of H "[]"] by simp
qed

text \<open>
  An instance of C10: three entries.
\<close>

theorem consistency_proof_from_zero_length_witness:
  "[[1], [2], [3 :: byte]] \<noteq> [] \<and> length [[1], [2], [3 :: byte]] < 2 ^ 63 \<and>
   (\<exists>p. Proof id_hash 0 [[1], [2], [3]] = Some p \<and> p \<noteq> [] \<and>
      int (length p) = levels (int (length [[1], [2], [3 :: byte]])) \<and>
      hd p = leafHash id_hash ([[1], [2], [3]] ! 0))"
  using consistency_proof_from_zero_length[of "[[1], [2], [3]]" id_hash] by simp

end
